theory Spec2Isabelle
  imports Main "HOL-Library.AList" "HOL-Library.Sublist"
begin

section \<open>unox: the Unison file-monitor adapter\<close>

text \<open>
  A shallow embedding of \<^verbatim>\<open>unox.py\<close>. Python strings are \<^typ>\<open>string\<close> (byte
  lists), the three global dictionaries are fields of a \<^theory_text>\<open>record\<close>, every
  write to a stream and every call into the watchdog observer is an entry of a trace,
  and every way of leaving the process (\<^verbatim>\<open>sys.exit\<close>, \<^verbatim>\<open>os._exit\<close>, an uncaught
  exception) is a value. The observer calls \<^verbatim>\<open>Handler.dispatch\<close> on threads of its own;
  here a callback is one step on the state, taken between two steps of the main thread.
  Signals and the buffering of standard output are not part of the model: a line counts
  as sent when \<^verbatim>\<open>sendCmd\<close> writes it.
\<close>

subsection \<open>Library functions the script calls\<close>

abbreviation NL :: char where
  "NL \<equiv> CHR 0x0A"

text \<open>\<^verbatim>\<open>str.isspace\<close> on the ASCII range, as \<^verbatim>\<open>str.strip()\<close> uses it.\<close>

definition isspace :: "char \<Rightarrow> bool" where
  "isspace c \<longleftrightarrow> c \<in> {CHR 0x09, CHR 0x0A, CHR 0x0B, CHR 0x0C, CHR 0x0D,
     CHR 0x1C, CHR 0x1D, CHR 0x1E, CHR 0x1F, CHR '' ''}"

definition strip :: "string \<Rightarrow> string" where
  "strip s = rev (dropWhile isspace (rev (dropWhile isspace s)))"

text \<open>
  \<^verbatim>\<open>s.split(sep)\<close> with an explicit one-character separator: it cuts at every
  occurrence, keeps empty pieces and always returns at least one piece.
\<close>

fun str_split :: "char \<Rightarrow> string \<Rightarrow> string list" where
  "str_split sep [] = [[]]"
| "str_split sep (c # cs) =
     (let ws = str_split sep cs in
      if c = sep then [] # ws else (c # hd ws) # tl ws)"

definition endswith :: "string \<Rightarrow> string \<Rightarrow> bool" where
  "endswith s suf \<longleftrightarrow> suffix suf s"

definition startswith :: "string \<Rightarrow> string \<Rightarrow> bool" where
  "startswith s pre \<longleftrightarrow> prefix pre s"

text \<open>
  \<^verbatim>\<open>urllib.quote\<close> with its default \<^verbatim>\<open>safe='/'\<close>, on bytes: letters, digits,
  \<^verbatim>\<open>_.-~\<close> and \<^verbatim>\<open>/\<close> are kept, every other byte becomes \<^verbatim>\<open>%XX\<close> with upper-case
  hexadecimal digits. (Python before 3.7 escapes \<^verbatim>\<open>~\<close> as well; nothing below depends
  on that character.)
\<close>

definition always_safe :: "char \<Rightarrow> bool" where
  "always_safe c \<longleftrightarrow>
     c \<in> set ''ABCDEFGHIJKLMNOPQRSTUVWXYZabcdefghijklmnopqrstuvwxyz0123456789_.-~''"

definition hex_digit :: "nat \<Rightarrow> char" where
  "hex_digit n = ''0123456789ABCDEF'' ! (n mod 16)"

definition quote_char :: "char \<Rightarrow> string" where
  "quote_char c =
     (if always_safe c \<or> c = CHR ''/'' then [c]
      else [CHR ''%'', hex_digit (of_char c div 16), hex_digit (of_char c)])"

definition quote :: "string \<Rightarrow> string" where
  "quote s = concat (map quote_char s)"

text \<open>
  \<^verbatim>\<open>urllib.unquote\<close> on bytes: \<^verbatim>\<open>%\<close> followed by two hexadecimal digits (either
  case) is the byte they name; any other \<^verbatim>\<open>%\<close> stays as it is. (Python 3 goes on to
  read the bytes as UTF-8; on ASCII that changes nothing.)
\<close>

definition hex_val :: "char \<Rightarrow> nat option" where
  "hex_val c =
     (if c \<in> set ''0123456789'' then Some (of_char c - 48)
      else if c \<in> set ''ABCDEF'' then Some (of_char c - 55)
      else if c \<in> set ''abcdef'' then Some (of_char c - 87)
      else None)"

fun unquote :: "string \<Rightarrow> string" where
  "unquote (c # h # l # rest) =
     (case (c = CHR ''%'', hex_val h, hex_val l) of
        (True, Some a, Some b) \<Rightarrow> char_of (16 * a + b) # unquote rest
      | _ \<Rightarrow> c # unquote (h # l # rest))"
| "unquote s = s"

text \<open>\<^verbatim>\<open>os.path.join(a, b)\<close> of \<^verbatim>\<open>posixpath\<close>, for two components.\<close>

definition path_join :: "string \<Rightarrow> string \<Rightarrow> string" where
  "path_join a b =
     (if startswith b ''/'' then b
      else if a = [] \<or> endswith a ''/'' then a @ b
      else a @ ''/'' @ b)"

subsection \<open>Tokenizing a path\<close>

text \<open>
  \<^verbatim>\<open>pathTokenize\<close>: the loop appends each piece of \<^verbatim>\<open>path.split("/")\<close> whose length
  is positive.
\<close>

definition pathTokenize :: "string \<Rightarrow> string list" where
  "pathTokenize path = filter (\<lambda>path_tok. length path_tok > 0) (str_split CHR ''/'' path)"

subsection \<open>The process state\<close>

text \<open>
  A level of \<^verbatim>\<open>triggered_reps\<close> is either \<^verbatim>\<open>True\<close> (a pending leaf) or a dict from
  path tokens to levels. The dict is an association list in insertion order, which is the
  order \<^verbatim>\<open>items()\<close> walks it in.
\<close>

datatype lvl = Dirty | Branch "(string \<times> lvl) list"

datatype watch = ObservedWatch string

record replica_entry =
  r_watch :: watch
  r_fspath :: string

text \<open>
  What the process does to the outside: lines written to and flushes of standard
  output, lines read from standard input, and the calls into the watchdog observer.
\<close>

datatype io =
    Write string
  | Flush
  | Read string
  | Schedule string
  | Unschedule watch
  | ObserverStop
  | ObserverJoin

text \<open>
  The globals of the script, the two input streams it consumes and the trace it leaves.
  \<open>stdin\<close> holds what successive \<^verbatim>\<open>readline()\<close> calls return (a complete line ends
  with a newline; after the list \<^verbatim>\<open>readline()\<close> returns the empty string).
  \<open>schedule_error\<close> is the file system's answer to \<^verbatim>\<open>observer.schedule\<close> on a
  path: \<open>None\<close> when the watch is set up, the exception's text when it raises.
\<close>

record state =
  replicas :: "(string \<times> replica_entry) list"
  pending_reps :: "string set"
  triggered_reps :: "string \<rightharpoonup> lvl"
  in_debug :: bool
  stdin :: "string list"
  trace :: "io list"
  stderr :: "string list"
  schedule_error :: "string \<Rightarrow> string option"

text \<open>
  How the process can end: \<^verbatim>\<open>sys.exit(n)\<close> raises \<^verbatim>\<open>SystemExit\<close>, an uncaught
  exception unwinds the same way, and \<^verbatim>\<open>os._exit(n)\<close> ends the process on the spot.
\<close>

datatype exit = SysExit nat | OsExit nat | Uncaught string

datatype 'a outcome = Exit exit state | Ret 'a state

subsection \<open>Logging and the protocol codec\<close>

definition my_log_prefix :: string where
  "my_log_prefix = ''[unox]''"

definition debug :: "string \<Rightarrow> state \<Rightarrow> state" where
  "debug msg st = st\<lparr>stderr := stderr st @ [my_log_prefix @ ''[DEBUG]: '' @ strip msg @ [NL]]\<rparr>"

definition warn :: "string \<Rightarrow> state \<Rightarrow> state" where
  "warn msg st = st\<lparr>stderr := stderr st @ [my_log_prefix @ ''[WARN]: '' @ strip msg @ [NL]]\<rparr>"

text \<open>The guard \<^verbatim>\<open>if _in_debug: _debug(msg)\<close> that precedes most steps.\<close>

definition debug_if :: "string \<Rightarrow> state \<Rightarrow> state" where
  "debug_if msg st = (if in_debug st then debug msg st else st)"

definition raw_cmd :: "string \<Rightarrow> string list \<Rightarrow> string" where
  "raw_cmd cmd args = foldl (\<lambda>raw arg. raw @ '' '' @ quote arg) cmd args"

definition sendCmd :: "string \<Rightarrow> string list \<Rightarrow> state \<Rightarrow> state" where
  "sendCmd cmd args st =
     (let st1 = debug_if (''sendCmd: '' @ raw_cmd cmd args) st
      in st1\<lparr>trace := trace st1 @ [Write (raw_cmd cmd args @ [NL])]\<rparr>)"

definition injectCmd :: "string \<Rightarrow> string list \<Rightarrow> state \<Rightarrow> state" where
  "injectCmd cmd args st =
     (let st1 = sendCmd cmd args st in st1\<lparr>trace := trace st1 @ [Flush]\<rparr>)"

definition sendAck :: "state \<Rightarrow> state" where
  "sendAck st = sendCmd ''OK'' [] st"

definition sendError :: "string \<Rightarrow> state \<Rightarrow> 'a outcome" where
  "sendError msg st = Exit (OsExit 1) (sendCmd ''ERROR'' [msg] st)"

text \<open>
  \<^verbatim>\<open>recvCmd\<close>: flush, read one line, leave with \<^verbatim>\<open>sys.exit(0)\<close> when it does not
  end in a newline, otherwise strip it, split it at single spaces, and return the first
  word as it is with the remaining words unquoted.
\<close>

definition recvCmd :: "state \<Rightarrow> (string \<times> string list) outcome" where
  "recvCmd st =
     (let st1 = st\<lparr>trace := trace st @ [Flush]\<rparr>;
          line = (case stdin st1 of [] \<Rightarrow> [] | l # _ \<Rightarrow> l);
          st2 = st1\<lparr>stdin := (case stdin st1 of [] \<Rightarrow> [] | _ # ls \<Rightarrow> ls),
                    trace := trace st1 @ [Read line]\<rparr>
      in if \<not> endswith line [NL] then Exit (SysExit 0) (debug_if ''stdin closed, exiting'' st2)
         else
           let st3 = debug_if (''recvCmd: '' @ line) st2;
               words = str_split CHR '' '' (strip line)
           in Ret (hd words, map unquote (tl words)) st3)"

subsection \<open>Recording a change\<close>

text \<open>
  The walk of \<^verbatim>\<open>triggerReplica\<close> from the level \<^verbatim>\<open>cur_lvl\<close>: the loop over
  \<^verbatim>\<open>local_path_toks[:len(local_path_toks) - 1]\<close> followed by the leaf assignment. Both
  tests \<^verbatim>\<open>cur_lvl == True\<close> return and leave the tree as it is; a missing branch is
  created empty and entered; the leaf token is bound to \<^verbatim>\<open>True\<close>. The dicts are
  updated in place, so the model rebuilds each level on the way back.
\<close>

fun trigger_walk :: "string list \<Rightarrow> string \<Rightarrow> lvl \<Rightarrow> lvl" where
  "trigger_walk branch_path_toks leaf_path_tok Dirty = Dirty"
| "trigger_walk [] leaf_path_tok (Branch cur_lvl) =
     Branch (AList.update leaf_path_tok Dirty cur_lvl)"
| "trigger_walk (branch_path_tok # rest) leaf_path_tok (Branch cur_lvl) =
     (let new_lvl = (case map_of cur_lvl branch_path_tok of
                       None \<Rightarrow> Branch []
                     | Some l \<Rightarrow> l)
      in Branch (AList.update branch_path_tok (trigger_walk rest leaf_path_tok new_lvl) cur_lvl))"

definition triggerReplica :: "string \<Rightarrow> string list \<Rightarrow> state \<Rightarrow> state" where
  "triggerReplica replica local_path_toks st =
     (let st1 = (if replica \<in> pending_reps st
                 then (injectCmd ''CHANGES'' [replica] st)\<lparr>pending_reps := {}\<rparr>
                 else st)
      in if length local_path_toks = 0
         then st1\<lparr>triggered_reps := (triggered_reps st1)(replica \<mapsto> Dirty)\<rparr>
         else
           let cur_lvl = (case triggered_reps st1 replica of
                            None \<Rightarrow> Branch []
                          | Some l \<Rightarrow> l)
           in st1\<lparr>triggered_reps := (triggered_reps st1)(replica \<mapsto>
                  trigger_walk (butlast local_path_toks) (last local_path_toks) cur_lvl)\<rparr>)"

text \<open>
  \<^verbatim>\<open>Handler.dispatch\<close>, the callback of the watchdog observer. Nothing in the body
  raises, so its catch-all handler is never entered.
\<close>

record handler =
  h_replica :: string
  h_fspath :: string

definition dispatch :: "handler \<Rightarrow> string \<Rightarrow> state \<Rightarrow> state" where
  "dispatch self path st =
     (if \<not> startswith path (h_fspath self)
      then warn (''unexpected file event at path ['' @ path @ ''] for ['' @ h_fspath self @ '']'') st
      else
        let local_path = drop (length (h_fspath self)) path;
            local_path_toks = pathTokenize local_path;
            st1 = debug_if (''replica:['' @ h_replica self @ ''] file event @['' @ local_path
                            @ ''] ('' @ path @ '')'') st
        in triggerReplica (h_replica self) local_path_toks st1)"

subsection \<open>Starting a replica\<close>

text \<open>The \<^verbatim>\<open>while True\<close> loop that ends \<^verbatim>\<open>startReplicaMon\<close>.\<close>

function startReplicaMon_loop :: "state \<Rightarrow> unit outcome" where
  "startReplicaMon_loop st =
     (case recvCmd st of
        Exit e st1 \<Rightarrow> Exit e st1
      | Ret (cmd, args) st1 \<Rightarrow>
          if cmd = ''DIR'' then startReplicaMon_loop (sendAck st1)
          else if cmd = ''LINK'' then
            sendError ''link following is not supported by unison-watchdog, please disable this option (-links)'' st1
          else if cmd = ''DONE'' then Ret () st1
          else sendError (''unexpected cmd in replica start: '' @ cmd) st1)"
  by pat_completeness auto

lemma stdin_debug_if [simp]: "stdin (debug_if msg st) = stdin st"
  by (simp add: debug_if_def debug_def)

lemma stdin_sendCmd [simp]: "stdin (sendCmd cmd args st) = stdin st"
  by (simp add: sendCmd_def Let_def)

lemma stdin_sendAck [simp]: "stdin (sendAck st) = stdin st"
  by (simp add: sendAck_def)

lemma recvCmd_Ret_stdin:
  "recvCmd st = Ret r st1 \<Longrightarrow> length (stdin st1) < length (stdin st)"
  by (auto simp: recvCmd_def Let_def endswith_def split: if_splits list.splits)

termination startReplicaMon_loop
  by (relation "measure (\<lambda>st. length (stdin st))") (auto dest: recvCmd_Ret_stdin)

declare startReplicaMon_loop.simps [simp del]

definition startReplicaMon :: "string \<Rightarrow> string \<Rightarrow> string \<Rightarrow> state \<Rightarrow> unit outcome" where
  "startReplicaMon replica fspath0 path st =
     (if map_of (replicas st) replica = None then
        let fspath = path_join fspath0 '''';
            st1 = debug_if (''start monitoring of replica ['' @ replica @ ''] ['' @ fspath @ '']'') st;
            st2 = debug_if (''replica:['' @ replica @ ''] watching path ['' @ fspath @ '']'') st1
        in case schedule_error st2 fspath of
             Some e \<Rightarrow> sendError e st2
           | None \<Rightarrow>
               startReplicaMon_loop (sendAck
                 (st2\<lparr>trace := trace st2 @ [Schedule fspath],
                      replicas := AList.update replica
                        \<lparr>r_watch = ObservedWatch fspath, r_fspath = fspath\<rparr> (replicas st2)\<rparr>))
      else startReplicaMon_loop (sendAck st))"

subsection \<open>Reporting the recorded changes\<close>

fun reportRecursiveChanges :: "string \<Rightarrow> lvl \<Rightarrow> state \<Rightarrow> state" where
  "reportRecursiveChanges local_path Dirty st = sendCmd ''RECURSIVE'' [local_path] st"
| "reportRecursiveChanges local_path (Branch cur_lvl) st =
     fold (\<lambda>item. reportRecursiveChanges (path_join local_path (fst item)) (snd item))
       cur_lvl st"

subsection \<open>The main loop\<close>

text \<open>
  One pass of the \<^verbatim>\<open>while True\<close> loop of \<^verbatim>\<open>main\<close> after \<^verbatim>\<open>recvCmd\<close> has returned
  \<^verbatim>\<open>[cmd, args]\<close>. A list pattern that does not fit (\<^verbatim>\<open>[replica] = args\<close> with
  another number of arguments) raises \<^verbatim>\<open>ValueError\<close>, which nothing catches.
  The call \<^verbatim>\<open>sendCmd("CHANGES", replica)\<close> of the \<^verbatim>\<open>WAIT\<close> branch hands
  \<^verbatim>\<open>sendCmd\<close> a string where the other calls hand it a list, so the loop
  \<^verbatim>\<open>for arg in args\<close> runs over its characters. The test \<^verbatim>\<open>watch is not None\<close> of
  the \<^verbatim>\<open>RESET\<close> branch always holds, a stored watch being the value
  \<^verbatim>\<open>observer.schedule\<close> returned.
\<close>

definition main_cmd :: "string \<Rightarrow> string list \<Rightarrow> state \<Rightarrow> unit outcome" where
  "main_cmd cmd args st0 =
     (let st = (if cmd \<noteq> ''WAIT'' then st0\<lparr>pending_reps := {}\<rparr> else st0)
      in if cmd = ''DEBUG'' then Ret () (st\<lparr>in_debug := True\<rparr>)
         else if cmd = ''START'' then
           (if length args \<ge> 3 then
              (case args of
                 [replica, fspath, path] \<Rightarrow> startReplicaMon replica fspath path st
               | _ \<Rightarrow> Exit (Uncaught ''ValueError'') st)
            else
              (case args of
                 [replica, fspath] \<Rightarrow> startReplicaMon replica fspath '''' st
               | _ \<Rightarrow> Exit (Uncaught ''ValueError'') st))
         else if cmd = ''WAIT'' then
           (case args of
              [replica] \<Rightarrow>
                if map_of (replicas st) replica = None
                then sendError (''unknown replica: '' @ replica) st
                else if triggered_reps st replica \<noteq> None
                then Ret () ((sendCmd ''CHANGES'' (map (\<lambda>c. [c]) replica) st)\<lparr>pending_reps := {}\<rparr>)
                else Ret () (st\<lparr>pending_reps := insert replica (pending_reps st)\<rparr>)
            | _ \<Rightarrow> Exit (Uncaught ''ValueError'') st)
         else if cmd = ''CHANGES'' then
           (case args of
              [replica] \<Rightarrow>
                if map_of (replicas st) replica = None
                then sendError (''unknown replica: '' @ replica) st
                else
                  let st1 = (case triggered_reps st replica of
                               None \<Rightarrow> st
                             | Some cur_lvl \<Rightarrow>
                                 let st' = reportRecursiveChanges '''' cur_lvl st
                                 in st'\<lparr>triggered_reps := (triggered_reps st')(replica := None)\<rparr>)
                  in Ret () (sendCmd ''DONE'' [] st1)
            | _ \<Rightarrow> Exit (Uncaught ''ValueError'') st)
         else if cmd = ''RESET'' then
           (case args of
              [replica] \<Rightarrow>
                (case map_of (replicas st) replica of
                   None \<Rightarrow> Ret () (warn (''unknown replica: '' @ replica) st)
                 | Some entry \<Rightarrow>
                     Ret () (st\<lparr>trace := trace st @ [Unschedule (r_watch entry)],
                                replicas := AList.delete replica (replicas st),
                                triggered_reps := (triggered_reps st)(replica := None)\<rparr>))
            | _ \<Rightarrow> Exit (Uncaught ''ValueError'') st)
         else sendError (''unexpected root cmd: '' @ cmd) st)"

lemma stdin_reportRecursiveChanges [simp]:
  "stdin (reportRecursiveChanges local_path cur_lvl st) = stdin st"
proof (induction local_path cur_lvl st rule: reportRecursiveChanges.induct)
  case (1 local_path st)
  show ?case by simp
next
  case (2 local_path cur_lvl st)
  have "set items \<subseteq> set cur_lvl \<Longrightarrow>
      stdin (fold (\<lambda>item. reportRecursiveChanges (path_join local_path (fst item)) (snd item))
        items s) = stdin s" for items s
  proof (induction items arbitrary: s)
    case Nil
    show ?case by simp
  next
    case (Cons item items)
    then show ?case using "2.IH" [of item] by simp
  qed
  then show ?case by simp
qed








subsection \<open>The script\<close>



definition exit_code :: "exit \<Rightarrow> nat" where
  "exit_code e = (case e of SysExit n \<Rightarrow> n | OsExit n \<Rightarrow> n | Uncaught x \<Rightarrow> 1)"

text \<open>The globals as the module body leaves them.\<close>

definition init_state :: "bool \<Rightarrow> string list \<Rightarrow> (string \<Rightarrow> string option) \<Rightarrow> state" where
  "init_state dbg input sched =
     \<lparr>replicas = [], pending_reps = {}, triggered_reps = Map.empty, in_debug = dbg,
      stdin = input, trace = [], stderr = [], schedule_error = sched\<rparr>"

section \<open>Notions used to state the properties\<close>

text \<open>
  None of the following is code of the script; they are the vocabulary of the theorems.
\<close>

text \<open>
  The tree of a replica as \<^verbatim>\<open>triggerReplica\<close> sees it: an absent entry of
  \<^verbatim>\<open>triggered_reps\<close> is started as an empty dict.
\<close>

definition cur_tree :: "state \<Rightarrow> string \<Rightarrow> lvl" where
  "cur_tree st replica = (case triggered_reps st replica of None \<Rightarrow> Branch [] | Some l \<Rightarrow> l)"

text \<open>
  Recording a path by recursion on the path. \<open>trigger_walk_record_path\<close> below shows that
  this is what \<^verbatim>\<open>triggerReplica\<close> does to a tree.
\<close>

fun record_path :: "string list \<Rightarrow> lvl \<Rightarrow> lvl" where
  "record_path [] t = Dirty"
| "record_path (tok # toks) Dirty = Dirty"
| "record_path (tok # toks) (Branch cur_lvl) =
     Branch (AList.update tok
       (record_path toks (case map_of cur_lvl tok of None \<Rightarrow> Branch [] | Some l \<Rightarrow> l)) cur_lvl)"

text \<open>The node a path leads to, if any.\<close>

fun node_at :: "lvl \<Rightarrow> string list \<Rightarrow> lvl option" where
  "node_at t [] = Some t"
| "node_at Dirty (tok # toks) = None"
| "node_at (Branch cur_lvl) (tok # toks) =
     (case map_of cur_lvl tok of None \<Rightarrow> None | Some l \<Rightarrow> node_at l toks)"

text \<open>A path is covered when a dirty marker sits on it or on one of its ancestors.\<close>

fun covered :: "lvl \<Rightarrow> string list \<Rightarrow> bool" where
  "covered Dirty toks = True"
| "covered (Branch cur_lvl) [] = False"
| "covered (Branch cur_lvl) (tok # toks) =
     (case map_of cur_lvl tok of None \<Rightarrow> False | Some l \<Rightarrow> covered l toks)"

text \<open>The paths of the dirty markers, in the order the dicts are walked.\<close>

fun leaves :: "lvl \<Rightarrow> string list list" where
  "leaves Dirty = [[]]"
| "leaves (Branch cur_lvl) =
     concat (map (\<lambda>item. map ((#) (fst item)) (leaves (snd item))) cur_lvl)"

text \<open>
  The shape a stored tree keeps: the keys of a dict are distinct (it is a dict), and no
  dict is empty, so every branch ends in a dirty marker.
\<close>

fun lvl_ok :: "lvl \<Rightarrow> bool" where
  "lvl_ok Dirty = True"
| "lvl_ok (Branch cur_lvl) =
     (cur_lvl \<noteq> [] \<and> distinct (map fst cur_lvl) \<and> list_all (\<lambda>item. lvl_ok (snd item)) cur_lvl)"

text \<open>\<^verbatim>\<open>sep.join(words)\<close>, the inverse of \<^verbatim>\<open>split(sep)\<close>.\<close>

fun str_join :: "char \<Rightarrow> string list \<Rightarrow> string" where
  "str_join sep [] = []"
| "str_join sep [w] = w"
| "str_join sep (w # w' # ws) = w @ sep # str_join sep (w' # ws)"

text \<open>A path segment: not empty, no separator.\<close>

definition segment :: "string \<Rightarrow> bool" where
  "segment s \<longleftrightarrow> s \<noteq> [] \<and> CHR ''/'' \<notin> set s"

text \<open>
  The arguments of the \<^verbatim>\<open>RECURSIVE\<close> commands that \<^verbatim>\<open>reportRecursiveChanges\<close>
  sends, in order (\<open>reportRecursiveChanges_dirty_paths\<close> below).
\<close>

fun dirty_paths :: "string \<Rightarrow> lvl \<Rightarrow> string list" where
  "dirty_paths local_path Dirty = [local_path]"
| "dirty_paths local_path (Branch cur_lvl) =
     concat (map (\<lambda>item. dirty_paths (path_join local_path (fst item)) (snd item)) cur_lvl)"

text \<open>The state an outcome carries.\<close>

fun outcome_state :: "'a outcome \<Rightarrow> state" where
  "outcome_state (Exit e st) = st"
| "outcome_state (Ret r st) = st"

text \<open>
  A state in which replica \<^verbatim>\<open>r1\<close> is registered on \<^verbatim>\<open>/tmp/a/\<close> and nothing else
  has happened; the examples start from it.
\<close>

definition registered_r1 :: state where
  "registered_r1 =
     (init_state False [] (\<lambda>path. None))
       \<lparr>replicas := [(''r1'', \<lparr>r_watch = ObservedWatch ''/tmp/a/'', r_fspath = ''/tmp/a/''\<rparr>)]\<rparr>"

text \<open>
  Decoding as the specification words it, for comparison with \<^verbatim>\<open>recvCmd\<close>: the line is
  cut at runs of whitespace (\<^verbatim>\<open>str.split()\<close> without an argument) and every token, the
  command included, is unquoted.
\<close>

fun ws_words :: "string \<Rightarrow> string \<Rightarrow> string list" where
  "ws_words cur [] = (if cur = [] then [] else [cur])"
| "ws_words cur (c # cs) =
     (if isspace c then (if cur = [] then ws_words [] cs else cur # ws_words [] cs)
      else ws_words (cur @ [c]) cs)"

definition decode_spec :: "string \<Rightarrow> string \<times> string list" where
  "decode_spec line = (let toks = map unquote (ws_words [] line) in (hd toks, tl toks))"

text \<open>What a call returned, if it returned.\<close>

fun returned :: "'a outcome \<Rightarrow> 'a option" where
  "returned (Exit e st) = None"
| "returned (Ret r st) = Some r"

text \<open>The state at start-up with debugging off, on a file system where every path can be watched.\<close>

definition fresh_state :: "string list \<Rightarrow> state" where
  "fresh_state input = init_state False input (\<lambda>path. None)"

text \<open>
  What an exit looks like from outside. After \<^verbatim>\<open>sys.exit\<close> the status is 0 and the last
  thing that happened is a read that met the end of the input; after \<^verbatim>\<open>os._exit\<close> the
  status is 1 and the last thing that happened is the write of an \<^verbatim>\<open>ERROR\<close> line; an
  uncaught exception is a \<^verbatim>\<open>ValueError\<close>.
\<close>

definition exit_shape :: "exit \<Rightarrow> state \<Rightarrow> bool" where
  "exit_shape e s =
     (case e of
        SysExit n \<Rightarrow> n = 0 \<and> trace s \<noteq> [] \<and>
          (case last (trace s) of Read line \<Rightarrow> \<not> endswith line [NL] | _ \<Rightarrow> False)
      | OsExit n \<Rightarrow> n = 1 \<and> trace s \<noteq> [] \<and>
          (case last (trace s) of Write line \<Rightarrow> startswith line ''ERROR '' | _ \<Rightarrow> False)
      | Uncaught x \<Rightarrow> x = ''ValueError'')"

section \<open>The trigger tree\<close>

lemma trigger_walk_record_path:
  "toks \<noteq> [] \<Longrightarrow> trigger_walk (butlast toks) (last toks) t = record_path toks t"
proof (induction toks arbitrary: t)
  case Nil
  then show ?case by simp
next
  case (Cons tok toks)
  show ?case
  proof (cases t)
    case Dirty
    then show ?thesis by simp
  next
    case (Branch cur_lvl)
    show ?thesis
    proof (cases "toks = []")
      case True
      with Branch show ?thesis by simp
    next
      case False
      with Branch Cons.IH show ?thesis by (simp add: Let_def)
    qed
  qed
qed

lemma covered_iff: "covered t p \<longleftrightarrow> (\<exists>l. prefix l p \<and> node_at t l = Some Dirty)"
proof (induction t p rule: covered.induct)
  case (1 toks)
  show ?case by (auto intro: exI [of _ "[]"])
next
  case (2 cur_lvl)
  show ?case by simp
next
  case (3 cur_lvl tok toks)
  show ?case
  proof (cases "map_of cur_lvl tok")
    case None
    then show ?thesis by (auto simp: prefix_Cons)
  next
    case (Some l)
    with 3 show ?thesis
      by (auto simp: prefix_Cons)
  qed
qed

lemma record_path_covered: "covered t p \<Longrightarrow> record_path p t = t"
proof (induction p t rule: record_path.induct)
  case (1 t)
  then show ?case by (cases t) auto
next
  case (2 tok toks)
  show ?case by simp
next
  case (3 tok toks cur_lvl)
  then show ?case
    by (auto split: option.splits simp: AList.update_triv)
qed

lemma node_at_Dirty_append: "node_at t l = Some Dirty \<Longrightarrow> q \<noteq> [] \<Longrightarrow> node_at t (l @ q) = None"
proof (induction t l rule: node_at.induct)
  case (1 t)
  then show ?case by (cases q) auto
next
  case (2 tok toks)
  then show ?case by simp
next
  case (3 cur_lvl tok toks)
  then show ?case by (auto split: option.splits)
qed

lemma not_covered_empty [simp]: "\<not> covered (Branch []) p"
  by (cases p) auto

lemma node_at_empty: "node_at (Branch []) q = Some Dirty \<longleftrightarrow> False"
  by (cases q) auto

lemma record_path_dirty:
  "\<not> covered t p \<Longrightarrow>
     node_at (record_path p t) q = Some Dirty \<longleftrightarrow>
       q = p \<or> (node_at t q = Some Dirty \<and> \<not> prefix p q)"
proof (induction p t arbitrary: q rule: record_path.induct)
  case (1 t)
  then show ?case by (cases q) auto
next
  case (2 tok toks)
  then show ?case by simp
next
  case (3 tok toks cur_lvl)
  let ?c = "case map_of cur_lvl tok of None \<Rightarrow> Branch [] | Some l \<Rightarrow> l"
  from "3.prems" have nc: "\<not> covered ?c toks"
    by (auto split: option.splits)
  show ?case
  proof (cases q)
    case Nil
    then show ?thesis by simp
  next
    case (Cons k qs)
    show ?thesis
    proof (cases "k = tok")
      case True
      have "node_at (record_path toks ?c) qs = Some Dirty \<longleftrightarrow>
          qs = toks \<or> (node_at ?c qs = Some Dirty \<and> \<not> prefix toks qs)"
        by (rule "3.IH" [OF nc])
      with Cons True show ?thesis
        by (auto simp: AList.update_conv' node_at_empty split: option.splits)
    next
      case False
      with Cons show ?thesis
        by (auto simp: AList.update_conv')
    qed
  qed
qed

lemma set_update_subset: "set (AList.update k v al) \<subseteq> insert (k, v) (set al)"
  by (induction al) auto

lemma lvl_ok_record_path: "t = Branch [] \<or> lvl_ok t \<Longrightarrow> lvl_ok (record_path p t)"
proof (induction p t rule: record_path.induct)
  case (1 t)
  show ?case by simp
next
  case (2 tok toks)
  show ?case by simp
next
  case (3 tok toks cur_lvl)
  let ?c = "case map_of cur_lvl tok of None \<Rightarrow> Branch [] | Some l \<Rightarrow> l"
  from "3.prems" have d: "distinct (map fst cur_lvl)"
    and kids: "\<forall>item\<in>set cur_lvl. lvl_ok (snd item)"
    by (auto simp: list_all_iff)
  have "?c = Branch [] \<or> lvl_ok ?c"
    using kids by (auto split: option.splits dest!: map_of_SomeD)
  then have ok: "lvl_ok (record_path toks ?c)"
    by (rule "3.IH")
  have "\<forall>item\<in>set (AList.update tok (record_path toks ?c) cur_lvl). lvl_ok (snd item)"
    using kids ok set_update_subset [of tok "record_path toks ?c" cur_lvl] by auto
  with d show ?case
    by (simp add: list_all_iff AList.distinct_update)
qed

lemma leaves_Cons_iff:
  "distinct (map fst cur_lvl) \<Longrightarrow>
     tok # toks \<in> set (leaves (Branch cur_lvl)) \<longleftrightarrow>
       (\<exists>l. map_of cur_lvl tok = Some l \<and> toks \<in> set (leaves l))"
  by (force simp: image_iff)

lemma leaves_iff: "lvl_ok t \<Longrightarrow> q \<in> set (leaves t) \<longleftrightarrow> node_at t q = Some Dirty"
proof (induction t q rule: node_at.induct)
  case (1 t)
  then show ?case by (cases t) auto
next
  case (2 tok toks)
  show ?case by simp
next
  case (3 cur_lvl tok toks)
  from "3.prems" have d: "distinct (map fst cur_lvl)"
    and kids: "\<forall>item\<in>set cur_lvl. lvl_ok (snd item)"
    by (auto simp: list_all_iff)
  show ?case
  proof (cases "map_of cur_lvl tok")
    case None
    with d show ?thesis by (simp add: leaves_Cons_iff del: leaves.simps)
  next
    case (Some l)
    with kids have "lvl_ok l" by (auto dest!: map_of_SomeD)
    with "3.IH" [OF Some] Some d show ?thesis
      by (simp add: leaves_Cons_iff del: leaves.simps)
  qed
qed

lemma distinct_concat_heads:
  assumes "distinct (map fst kvs)"
    and "\<And>item. item \<in> set kvs \<Longrightarrow> distinct (f item)"
  shows "distinct (concat (map (\<lambda>item. map ((#) (fst item)) (f item)) kvs))"
  using assms
proof (induction kvs)
  case Nil
  show ?case by simp
next
  case (Cons item kvs)
  then show ?case
    by (auto simp: distinct_map image_iff)
qed

lemma distinct_leaves: "lvl_ok t \<Longrightarrow> distinct (leaves t)"
proof (induction t)
  case Dirty
  show ?case by simp
next
  case (Branch cur_lvl)
  have "distinct (concat (map (\<lambda>item. map ((#) (fst item)) (leaves (snd item))) cur_lvl))"
  proof (rule distinct_concat_heads)
    show "distinct (map fst cur_lvl)" using Branch.prems by simp
  next
    fix item assume "item \<in> set cur_lvl"
    with Branch.prems have "lvl_ok (snd item)" by (auto simp: list_all_iff)
    with Branch.IH [of item "snd item"] \<open>item \<in> set cur_lvl\<close>
    show "distinct (leaves (snd item))" by (cases item) auto
  qed
  then show ?case by simp
qed

lemma dirty_antichain:
  assumes "node_at t l1 = Some Dirty" and "node_at t l2 = Some Dirty" and "prefix l1 l2"
  shows "l1 = l2"
proof -
  from assms(3) obtain q where q: "l2 = l1 @ q" by (auto simp: prefix_def)
  show ?thesis
  proof (cases "q = []")
    case True
    with q show ?thesis by simp
  next
    case False
    with assms(1) have "node_at t (l1 @ q) = None" by (rule node_at_Dirty_append)
    with assms(2) q show ?thesis by simp
  qed
qed

lemma record_path_step:
  "node_at (record_path p t) q = Some Dirty \<longleftrightarrow>
     (if covered t p then node_at t q = Some Dirty
      else q = p \<or> (node_at t q = Some Dirty \<and> \<not> prefix p q))"
  by (simp add: record_path_covered record_path_dirty)

lemma fold_record_sound:
  "node_at (fold record_path ps t) q = Some Dirty \<Longrightarrow> q \<in> set ps \<or> node_at t q = Some Dirty"
proof (induction ps arbitrary: t)
  case Nil
  then show ?case by simp
next
  case (Cons p ps)
  from Cons.prems have "q \<in> set ps \<or> node_at (record_path p t) q = Some Dirty"
    using Cons.IH [of "record_path p t"] by simp
  then show ?case
    by (auto simp: record_path_step split: if_splits)
qed

lemma covered_record_path_mono: "covered t q \<Longrightarrow> covered (record_path p t) q"
proof (cases "covered t p")
  case True
  assume "covered t q"
  with True show ?thesis by (simp add: record_path_covered)
next
  case False
  assume "covered t q"
  then obtain l where l: "prefix l q" "node_at t l = Some Dirty"
    by (auto simp: covered_iff)
  show ?thesis
  proof (cases "prefix p l")
    case True
    with l(1) have "prefix p q" by (auto intro: prefix_order.trans)
    moreover have "node_at (record_path p t) p = Some Dirty"
      using False by (simp add: record_path_dirty)
    ultimately show ?thesis by (auto simp: covered_iff)
  next
    case np: False
    with l(2) False have "node_at (record_path p t) l = Some Dirty"
      by (simp add: record_path_dirty)
    with l(1) show ?thesis by (auto simp: covered_iff)
  qed
qed

lemma covered_record_path_self: "covered (record_path p t) p"
proof (cases "covered t p")
  case True
  then show ?thesis by (simp add: record_path_covered)
next
  case False
  then have "node_at (record_path p t) p = Some Dirty"
    by (simp add: record_path_dirty)
  then show ?thesis by (auto simp: covered_iff)
qed

lemma covered_fold_mono: "covered t q \<Longrightarrow> covered (fold record_path ps t) q"
  by (induction ps arbitrary: t) (auto intro: covered_record_path_mono)

lemma fold_record_complete: "p \<in> set ps \<Longrightarrow> covered (fold record_path ps t) p"
proof (induction ps arbitrary: t)
  case Nil
  then show ?case by simp
next
  case (Cons a ps)
  show ?case
  proof (cases "p = a")
    case True
    have "covered (fold record_path ps (record_path a t)) a"
      by (rule covered_fold_mono) (rule covered_record_path_self)
    with True show ?thesis by simp
  next
    case False
    with Cons.prems have "p \<in> set ps" by simp
    then show ?thesis using Cons.IH by simp
  qed
qed

lemma lvl_ok_fold: "t = Branch [] \<or> lvl_ok t \<Longrightarrow> ps \<noteq> [] \<Longrightarrow> lvl_ok (fold record_path ps t)"
proof (induction ps arbitrary: t)
  case Nil
  then show ?case by simp
next
  case (Cons p ps)
  from Cons.prems(1) have ok: "lvl_ok (record_path p t)" by (rule lvl_ok_record_path)
  show ?case
  proof (cases "ps = []")
    case True
    with ok show ?thesis by simp
  next
    case False
    with ok Cons.IH [of "record_path p t"] show ?thesis by simp
  qed
qed

section \<open>Splitting, joining and tokenizing\<close>

lemma str_split_nonempty [simp]: "str_split sep s \<noteq> []"
  by (induction s) (auto simp: Let_def)

lemma str_split_no_sep: "w \<in> set (str_split sep s) \<Longrightarrow> sep \<notin> set w"
proof (induction s arbitrary: w)
  case Nil
  then show ?case by simp
next
  case (Cons c cs)
  obtain v vs where vs: "str_split sep cs = v # vs"
    by (cases "str_split sep cs") auto
  with Cons show ?case
    by (auto simp: Let_def split: if_splits)
qed

lemma str_split_plain: "sep \<notin> set w \<Longrightarrow> str_split sep w = [w]"
  by (induction w) (auto simp: Let_def)

lemma str_split_sep_append: "sep \<notin> set w \<Longrightarrow> str_split sep (w @ sep # s) = w # str_split sep s"
  by (induction w) (auto simp: Let_def)

lemma str_split_append_sep:
  "str_split sep (a @ sep # b) = str_split sep a @ str_split sep b"
proof (induction a)
  case Nil
  show ?case by simp
next
  case (Cons c a)
  obtain v vs where vs: "str_split sep a = v # vs"
    by (cases "str_split sep a") auto
  with Cons show ?case
    by (auto simp: Let_def)
qed

lemma str_join_split: "str_join sep (str_split sep s) = s"
proof (induction s)
  case Nil
  show ?case by simp
next
  case (Cons c cs)
  obtain v vs where vs: "str_split sep cs = v # vs"
    by (cases "str_split sep cs") auto
  with Cons show ?case
    by (cases vs) (auto simp: Let_def)
qed

lemma str_split_join:
  "ws \<noteq> [] \<Longrightarrow> \<forall>w\<in>set ws. sep \<notin> set w \<Longrightarrow> str_split sep (str_join sep ws) = ws"
proof (induction sep ws rule: str_join.induct)
  case (1 sep)
  then show ?case by simp
next
  case (2 sep w)
  then show ?case by (simp add: str_split_plain)
next
  case (3 sep w w' ws)
  then show ?case by (simp add: str_split_sep_append)
qed

lemma pathTokenize_Nil [simp]: "pathTokenize [] = []"
  by (simp add: pathTokenize_def)

lemma pathTokenize_append_sep:
  "pathTokenize (a @ CHR ''/'' # b) = pathTokenize a @ pathTokenize b"
  by (simp add: pathTokenize_def str_split_append_sep)

lemma pathTokenize_segment:
  "seg \<noteq> [] \<Longrightarrow> CHR ''/'' \<notin> set seg \<Longrightarrow> pathTokenize seg = [seg]"
  by (simp add: pathTokenize_def str_split_plain)

lemma pathTokenize_join:
  "\<forall>seg\<in>set segs. CHR ''/'' \<notin> set seg \<Longrightarrow>
     pathTokenize (str_join CHR ''/'' segs) = filter (\<lambda>seg. seg \<noteq> []) segs"
proof (cases "segs = []")
  case True
  then show ?thesis by simp
next
  case False
  assume "\<forall>seg\<in>set segs. CHR ''/'' \<notin> set seg"
  with False have "str_split CHR ''/'' (str_join CHR ''/'' segs) = segs"
    by (rule str_split_join)
  then show ?thesis by (simp add: pathTokenize_def)
qed

lemma pathTokenize_valid:
  "tok \<in> set (pathTokenize path) \<Longrightarrow> tok \<noteq> [] \<and> CHR ''/'' \<notin> set tok"
  by (auto simp: pathTokenize_def dest: str_split_no_sep)

lemma pathTokenize_seps: "set local_path \<subseteq> {CHR ''/''} \<Longrightarrow> pathTokenize local_path = []"
proof (induction local_path)
  case Nil
  show ?case by simp
next
  case (Cons c cs)
  then have "c = CHR ''/''" by simp
  with Cons show ?case
    using pathTokenize_append_sep [of "[]" cs] by simp
qed

lemma path_join_segment:
  assumes "segment tok" and "a = [] \<or> last a \<noteq> CHR ''/''"
  shows "path_join a tok = (if a = [] then tok else a @ CHR ''/'' # tok)"
  using assms
  by (cases tok) (auto simp: path_join_def startswith_def endswith_def segment_def suffix_def)

lemma pathTokenize_foldl_path_join:
  assumes "\<forall>tok\<in>set toks. segment tok" and "a = [] \<or> last a \<noteq> CHR ''/''"
  shows "pathTokenize (foldl path_join a toks) = pathTokenize a @ toks"
  using assms
proof (induction toks arbitrary: a)
  case Nil
  show ?case by simp
next
  case (Cons tok toks)
  from Cons.prems have seg: "segment tok" by simp
  then have j: "path_join a tok = (if a = [] then tok else a @ CHR ''/'' # tok)"
    using Cons.prems(2) by (rule path_join_segment)
  from seg have lt: "last tok \<noteq> CHR ''/''"
    by (metis segment_def last_in_set)
  with seg have "path_join a tok \<noteq> []" "last (path_join a tok) \<noteq> CHR ''/''"
    unfolding j by (auto simp: segment_def)
  then have "pathTokenize (foldl path_join (path_join a tok) toks)
      = pathTokenize (path_join a tok) @ toks"
    using Cons.IH [of "path_join a tok"] Cons.prems(1) by simp
  moreover have "pathTokenize (path_join a tok) = pathTokenize a @ [tok]"
    using seg unfolding j
    by (auto simp: pathTokenize_append_sep pathTokenize_segment segment_def)
  ultimately show ?case by simp
qed

section \<open>What the commands do to the state\<close>

lemma dirty_paths_leaves: "dirty_paths local_path t = map (foldl path_join local_path) (leaves t)"
proof (induction local_path t rule: dirty_paths.induct)
  case (1 local_path)
  show ?case by simp
next
  case (2 local_path cur_lvl)
  have "map (\<lambda>item. dirty_paths (path_join local_path (fst item)) (snd item)) cur_lvl
      = map (\<lambda>item. map (foldl path_join local_path) (map ((#) (fst item)) (leaves (snd item)))) cur_lvl"
    (is "?l = ?r")
    using "2.IH" by (intro map_cong refl) (simp add: comp_def)
  then have "concat ?l = concat ?r"
    by (rule arg_cong)
  also have "\<dots> = map (foldl path_join local_path) (leaves (Branch cur_lvl))"
    by (simp add: map_concat comp_def)
  finally show ?case by simp
qed

lemma reportRecursiveChanges_dirty_paths:
  "reportRecursiveChanges local_path t st =
     fold (\<lambda>p. sendCmd ''RECURSIVE'' [p]) (dirty_paths local_path t) st"
proof (induction local_path t st rule: reportRecursiveChanges.induct)
  case (1 local_path st)
  show ?case by simp
next
  case (2 local_path cur_lvl st)
  have "set items \<subseteq> set cur_lvl \<Longrightarrow>
      fold (\<lambda>item. reportRecursiveChanges (path_join local_path (fst item)) (snd item)) items s
      = fold (\<lambda>p. sendCmd ''RECURSIVE'' [p])
          (concat (map (\<lambda>item. dirty_paths (path_join local_path (fst item)) (snd item)) items)) s"
    for items s
  proof (induction items arbitrary: s)
    case Nil
    show ?case by simp
  next
    case (Cons item items)
    then show ?case using "2.IH" [of item] by simp
  qed
  then show ?case by simp
qed

lemma sendCmd_frame [simp]:
  "replicas (sendCmd cmd args st) = replicas st"
  "pending_reps (sendCmd cmd args st) = pending_reps st"
  "triggered_reps (sendCmd cmd args st) = triggered_reps st"
  "in_debug (sendCmd cmd args st) = in_debug st"
  "schedule_error (sendCmd cmd args st) = schedule_error st"
  "trace (sendCmd cmd args st) = trace st @ [Write (raw_cmd cmd args @ [NL])]"
  by (simp_all add: sendCmd_def debug_if_def debug_def Let_def)

lemma debug_if_frame [simp]:
  "replicas (debug_if msg st) = replicas st"
  "pending_reps (debug_if msg st) = pending_reps st"
  "triggered_reps (debug_if msg st) = triggered_reps st"
  "in_debug (debug_if msg st) = in_debug st"
  "schedule_error (debug_if msg st) = schedule_error st"
  "trace (debug_if msg st) = trace st"
  by (simp_all add: debug_if_def debug_def)

lemma warn_frame [simp]:
  "replicas (warn msg st) = replicas st"
  "pending_reps (warn msg st) = pending_reps st"
  "triggered_reps (warn msg st) = triggered_reps st"
  "in_debug (warn msg st) = in_debug st"
  "stdin (warn msg st) = stdin st"
  "schedule_error (warn msg st) = schedule_error st"
  "trace (warn msg st) = trace st"
  by (simp_all add: warn_def)

lemma injectCmd_frame [simp]:
  "replicas (injectCmd cmd args st) = replicas st"
  "triggered_reps (injectCmd cmd args st) = triggered_reps st"
  "in_debug (injectCmd cmd args st) = in_debug st"
  "stdin (injectCmd cmd args st) = stdin st"
  by (simp_all add: injectCmd_def Let_def)

lemma triggered_reps_triggerReplica:
  "triggered_reps (triggerReplica replica toks st) =
     (triggered_reps st)(replica \<mapsto> record_path toks (cur_tree st replica))"
  by (cases "toks = []")
    (simp_all add: triggerReplica_def Let_def cur_tree_def trigger_walk_record_path)

lemma replicas_triggerReplica [simp]:
  "replicas (triggerReplica replica toks st) = replicas st"
  by (simp add: triggerReplica_def Let_def)

lemma cur_tree_triggerReplica:
  "cur_tree (triggerReplica replica toks st) replica = record_path toks (cur_tree st replica)"
  by (simp add: cur_tree_def triggered_reps_triggerReplica)

lemma replicas_fold_triggerReplica [simp]:
  "replicas (fold (triggerReplica replica) ps st) = replicas st"
  by (induction ps arbitrary: st) auto

lemma cur_tree_fold:
  "cur_tree (fold (triggerReplica replica) ps st) replica = fold record_path ps (cur_tree st replica)"
  by (induction ps arbitrary: st) (auto simp: cur_tree_triggerReplica)

lemma triggered_reps_fold:
  "ps \<noteq> [] \<Longrightarrow>
     triggered_reps (fold (triggerReplica replica) ps st) replica =
       Some (fold record_path ps (cur_tree st replica))"
proof (induction ps arbitrary: st rule: rev_induct)
  case Nil
  then show ?case by simp
next
  case (snoc p ps)
  show ?case
    by (simp add: triggered_reps_triggerReplica cur_tree_fold)
qed

lemma trace_fold_sendCmd:
  "trace (fold (\<lambda>p. sendCmd cmd [p]) ps st) =
     trace st @ map (\<lambda>p. Write (raw_cmd cmd [p] @ [NL])) ps"
  by (induction ps arbitrary: st) auto

lemma triggered_reps_fold_sendCmd [simp]:
  "triggered_reps (fold (\<lambda>p. sendCmd cmd [p]) ps st) = triggered_reps st"
  by (induction ps arbitrary: st) auto

lemma raw_cmd_one: "raw_cmd cmd [arg] = cmd @ '' '' @ quote arg"
  by (simp add: raw_cmd_def)

lemma raw_cmd_none: "raw_cmd cmd [] = cmd"
  by (simp add: raw_cmd_def)

lemma fold_sendCmd_frame [simp]:
  "replicas (fold (\<lambda>p. sendCmd cmd [p]) ps st) = replicas st"
  "pending_reps (fold (\<lambda>p. sendCmd cmd [p]) ps st) = pending_reps st"
  "in_debug (fold (\<lambda>p. sendCmd cmd [p]) ps st) = in_debug st"
  "schedule_error (fold (\<lambda>p. sendCmd cmd [p]) ps st) = schedule_error st"
  by (induction ps arbitrary: st) auto

lemma reportRecursiveChanges_frame [simp]:
  "replicas (reportRecursiveChanges local_path t st) = replicas st"
  "pending_reps (reportRecursiveChanges local_path t st) = pending_reps st"
  "triggered_reps (reportRecursiveChanges local_path t st) = triggered_reps st"
  "in_debug (reportRecursiveChanges local_path t st) = in_debug st"
  "schedule_error (reportRecursiveChanges local_path t st) = schedule_error st"
  by (simp_all add: reportRecursiveChanges_dirty_paths)

lemma trace_reportRecursiveChanges:
  "trace (reportRecursiveChanges local_path t st) =
     trace st @ map (\<lambda>e. Write (''RECURSIVE '' @ quote e @ [NL])) (dirty_paths local_path t)"
  by (simp add: reportRecursiveChanges_dirty_paths trace_fold_sendCmd raw_cmd_one)

lemma main_cmd_CHANGES_eq:
  "map_of (replicas st) replica \<noteq> None \<Longrightarrow>
   main_cmd ''CHANGES'' [replica] st =
     Ret () (sendCmd ''DONE'' []
       (case triggered_reps st replica of
          None \<Rightarrow> st\<lparr>pending_reps := {}\<rparr>
        | Some cur_lvl \<Rightarrow>
            (reportRecursiveChanges '''' cur_lvl (st\<lparr>pending_reps := {}\<rparr>))
              \<lparr>triggered_reps := (triggered_reps st)(replica := None)\<rparr>))"
  by (cases "map_of (replicas st) replica")
    (simp_all add: main_cmd_def Let_def split: option.splits)

lemma main_cmd_CHANGES:
  assumes "map_of (replicas st) replica \<noteq> None"
  shows "\<exists>st'. main_cmd ''CHANGES'' [replica] st = Ret () st'
     \<and> trace st' = trace st
         @ map (\<lambda>e. Write (''RECURSIVE '' @ quote e @ [NL]))
             (case triggered_reps st replica of None \<Rightarrow> [] | Some t \<Rightarrow> dirty_paths '''' t)
         @ [Write (''DONE'' @ [NL])]
     \<and> triggered_reps st' replica = None"
  using assms
  by (auto simp: main_cmd_def Let_def reportRecursiveChanges_dirty_paths trace_fold_sendCmd
      raw_cmd_one raw_cmd_none split: option.splits)

lemma record_path_Dirty [simp]: "record_path p Dirty = Dirty"
  by (cases p) auto

lemma fold_record_path_Dirty [simp]: "fold record_path ps Dirty = Dirty"
  by (induction ps) auto

lemma fold_record_path_root: "[] \<in> set ps \<Longrightarrow> fold record_path ps t = Dirty"
  by (induction ps arbitrary: t) auto

lemma dirty_kept_or_subsumed:
  assumes "node_at t l = Some Dirty"
  shows "node_at (record_path p t) l = Some Dirty
     \<or> (strict_prefix p l \<and> node_at (record_path p t) p = Some Dirty)"
proof (cases "covered t p")
  case True
  with assms show ?thesis by (simp add: record_path_covered)
next
  case False
  show ?thesis
  proof (cases "prefix p l")
    case np: False
    with assms False show ?thesis by (simp add: record_path_dirty)
  next
    case True
    have "p \<noteq> l"
    proof
      assume "p = l"
      with assms have "covered t p" by (auto simp: covered_iff)
      with False show False by simp
    qed
    with True have "strict_prefix p l" by (simp add: strict_prefix_def)
    moreover from False have "node_at (record_path p t) p = Some Dirty"
      by (simp add: record_path_dirty)
    ultimately show ?thesis by simp
  qed
qed

lemma cur_tree_debug_if [simp]: "cur_tree (debug_if msg st) replica = cur_tree st replica"
  by (simp add: cur_tree_def)

lemma triggered_reps_dispatch:
  "triggered_reps (dispatch self (h_fspath self @ local_path) st) =
     (triggered_reps st)(h_replica self \<mapsto>
        record_path (pathTokenize local_path) (cur_tree st (h_replica self)))"
  by (simp add: dispatch_def startswith_def Let_def triggered_reps_triggerReplica)

lemma pathTokenize_double_sep:
  "pathTokenize (a @ ''//'' @ b) = pathTokenize (a @ ''/'' @ b)"
  using pathTokenize_append_sep [of a "CHR ''/'' # b"] pathTokenize_append_sep [of "[]" b]
  by (simp add: pathTokenize_append_sep)

lemma pathTokenize_trailing_sep: "pathTokenize (a @ ''/'') = pathTokenize a"
  using pathTokenize_append_sep [of a "[]"] by simp

lemma recvCmd_frame:
  "replicas (outcome_state (recvCmd st)) = replicas st"
  "pending_reps (outcome_state (recvCmd st)) = pending_reps st"
  "triggered_reps (outcome_state (recvCmd st)) = triggered_reps st"
  "schedule_error (outcome_state (recvCmd st)) = schedule_error st"
  by (simp_all add: recvCmd_def Let_def)

lemma sendError_state [simp]:
  "outcome_state (sendError msg st) = sendCmd ''ERROR'' [msg] st"
  by (simp add: sendError_def)

lemma sendAck_frame [simp]:
  "replicas (sendAck st) = replicas st"
  "pending_reps (sendAck st) = pending_reps st"
  "triggered_reps (sendAck st) = triggered_reps st"
  "schedule_error (sendAck st) = schedule_error st"
  "trace (sendAck st) = trace st @ [Write (''OK'' @ [NL])]"
  by (simp_all add: sendAck_def raw_cmd_none)

lemma startReplicaMon_loop_pending:
  "pending_reps (outcome_state (startReplicaMon_loop st)) = pending_reps st"
proof (induction st rule: startReplicaMon_loop.induct)
  case (1 st)
  show ?case
  proof (cases "recvCmd st")
    case (Exit e st1)
    with recvCmd_frame(2) [of st] show ?thesis
      by (simp add: startReplicaMon_loop.simps [of st])
  next
    case (Ret r st1)
    obtain cmd args where r: "r = (cmd, args)" by (cases r)
    from Ret recvCmd_frame(2) [of st] have p: "pending_reps st1 = pending_reps st" by simp
    show ?thesis
    proof (cases "cmd = ''DIR''")
      case True
      with "1.IH" [OF Ret [unfolded r] refl True] Ret r p show ?thesis
        by (simp add: startReplicaMon_loop.simps [of st])
    next
      case False
      with Ret r p show ?thesis
        by (simp add: startReplicaMon_loop.simps [of st])
    qed
  qed
qed

lemma startReplicaMon_pending:
  "pending_reps (outcome_state (startReplicaMon replica fspath path st)) = pending_reps st"
  by (simp add: startReplicaMon_def Let_def startReplicaMon_loop_pending split: option.splits)

lemma recvCmd_line:
  assumes "stdin st = line # rest" and "endswith line [NL]"
  shows "recvCmd st =
     Ret (hd (str_split CHR '' '' (strip line)), map unquote (tl (str_split CHR '' '' (strip line))))
       (debug_if (''recvCmd: '' @ line) (st\<lparr>stdin := rest, trace := trace st @ [Flush, Read line]\<rparr>))"
  using assms by (simp add: recvCmd_def Let_def)




lemma strip_decomp:
  "\<exists>pre post. s = pre @ strip s @ post \<and> (\<forall>c\<in>set pre. isspace c) \<and> (\<forall>c\<in>set post. isspace c)"
proof (intro exI conjI)
  let ?d = "dropWhile isspace s"
  have "rev ?d = takeWhile isspace (rev ?d) @ dropWhile isspace (rev ?d)"
    by simp
  then have "?d = strip s @ rev (takeWhile isspace (rev ?d))"
    unfolding strip_def by (metis rev_append rev_rev_ident)
  then show "s = takeWhile isspace s @ strip s @ rev (takeWhile isspace (rev ?d))"
    by (metis takeWhile_dropWhile_id)
  show "\<forall>c\<in>set (takeWhile isspace s). isspace c"
    by (auto dest: set_takeWhileD)
  show "\<forall>c\<in>set (rev (takeWhile isspace (rev ?d))). isspace c"
    by (auto dest: set_takeWhileD)
qed

lemma last_dropWhile_nonempty: "dropWhile P xs \<noteq> [] \<Longrightarrow> last (dropWhile P xs) = last xs"
  by (induction xs) (auto split: if_splits)

lemma strip_ends:
  assumes "strip s \<noteq> []"
  shows "\<not> isspace (hd (strip s)) \<and> \<not> isspace (last (strip s))"
proof
  let ?d = "dropWhile isspace s"
  let ?e = "dropWhile isspace (rev ?d)"
  from assms have e: "?e \<noteq> []" by (simp add: strip_def)
  then have d: "?d \<noteq> []" by (cases "dropWhile isspace s") auto
  from e have "\<not> isspace (hd ?e)" by (rule hd_dropWhile)
  with e show "\<not> isspace (last (strip s))"
    by (simp add: strip_def last_rev)
  from e have "last ?e = last (rev ?d)" by (rule last_dropWhile_nonempty)
  with d have "last ?e = hd ?d" by (simp add: last_rev)
  moreover from d have "\<not> isspace (hd ?d)" by (rule hd_dropWhile)
  ultimately show "\<not> isspace (hd (strip s))"
    using e by (simp add: strip_def hd_rev)
qed

lemma startReplicaMon_loop_dirs_done:
  assumes "stdin st = dirs @ fin # rest"
    and "\<forall>d\<in>set dirs. endswith d [NL] \<and> hd (str_split CHR '' '' (strip d)) = ''DIR''"
    and "endswith fin [NL]" and "hd (str_split CHR '' '' (strip fin)) = ''DONE''"
  shows "\<exists>st'. startReplicaMon_loop st = Ret () st'
     \<and> stdin st' = rest
     \<and> trace st' = trace st
         @ concat (map (\<lambda>d. [Flush, Read d, Write (''OK'' @ [NL])]) dirs)
         @ [Flush, Read fin]"
  using assms(1,2)
proof (induction dirs arbitrary: st)
  case Nil
  then have "stdin st = fin # rest" by simp
  from recvCmd_line [OF this assms(3)] assms(4) show ?case
    by (simp add: startReplicaMon_loop.simps [of st])
next
  case (Cons d ds)
  from Cons.prems have in1: "stdin st = d # (ds @ fin # rest)"
    and d: "endswith d [NL]" "hd (str_split CHR '' '' (strip d)) = ''DIR''"
    and ds: "\<forall>d\<in>set ds. endswith d [NL] \<and> hd (str_split CHR '' '' (strip d)) = ''DIR''"
    by simp_all
  let ?st1 = "debug_if (''recvCmd: '' @ d)
      (st\<lparr>stdin := ds @ fin # rest, trace := trace st @ [Flush, Read d]\<rparr>)"
  from recvCmd_line [OF in1 d(1)] d(2)
  have step: "startReplicaMon_loop st = startReplicaMon_loop (sendAck ?st1)"
    by (simp add: startReplicaMon_loop.simps [of st])
  have "stdin (sendAck ?st1) = ds @ fin # rest" by simp
  from Cons.IH [OF this ds] obtain st' where
    "startReplicaMon_loop (sendAck ?st1) = Ret () st'" "stdin st' = rest"
    "trace st' = trace (sendAck ?st1)
         @ concat (map (\<lambda>d. [Flush, Read d, Write (''OK'' @ [NL])]) ds) @ [Flush, Read fin]"
    by blast
  with step show ?case by simp
qed

section \<open>How the process ends\<close>



lemma sendError_not_Ret [simp]: "sendError msg st \<noteq> Ret u s"
  by (simp add: sendError_def)



lemma Uncaught_exit_shape [simp]: "exit_shape (Uncaught ''ValueError'') s"
  by (simp add: exit_shape_def)




section \<open>The claims\<close>

text \<open>
  C1. Record any sequence of paths (lists of path segments) for a registered replica
  whose tree is absent, then let the client send \<^verbatim>\<open>CHANGES\<close>. The command writes one
  \<^verbatim>\<open>RECURSIVE\<close> line per entry and then \<^verbatim>\<open>DONE\<close>, and removes the tree. The entries
  are free of duplicates; every recorded path lies under exactly one entry; every entry
  is one of the recorded paths; and no entry lies under another.
\<close>

theorem drain_reports_each_change_once:
  assumes segs: "\<forall>p\<in>set ps. \<forall>tok\<in>set p. tok \<noteq> [] \<and> CHR ''/'' \<notin> set tok"
    and fresh: "triggered_reps st0 replica = None"
    and reg: "map_of (replicas st0) replica \<noteq> None"
  shows "\<exists>entries st'.
      main_cmd ''CHANGES'' [replica] (fold (triggerReplica replica) ps st0) = Ret () st'
    \<and> trace st' = trace (fold (triggerReplica replica) ps st0)
        @ map (\<lambda>e. Write (''RECURSIVE '' @ quote e @ [NL])) entries @ [Write (''DONE'' @ [NL])]
    \<and> triggered_reps st' replica = None
    \<and> distinct entries
    \<and> (\<forall>p\<in>set ps. \<exists>!e. e \<in> set entries \<and> prefix (pathTokenize e) p)
    \<and> (\<forall>e\<in>set entries. pathTokenize e \<in> set ps)
    \<and> (\<forall>e1\<in>set entries. \<forall>e2\<in>set entries.
          prefix (pathTokenize e1) (pathTokenize e2) \<longrightarrow> e1 = e2)"
proof -
  let ?st = "fold (triggerReplica replica) ps st0"
  let ?t = "fold record_path ps (Branch [])"
  define entries where
    "entries = (case triggered_reps ?st replica of None \<Rightarrow> [] | Some t \<Rightarrow> dirty_paths '''' t)"
  from reg have "map_of (replicas ?st) replica \<noteq> None" by simp
  from main_cmd_CHANGES [OF this] obtain st' where
    run: "main_cmd ''CHANGES'' [replica] ?st = Ret () st'"
    and tr: "trace st' = trace ?st
        @ map (\<lambda>e. Write (''RECURSIVE '' @ quote e @ [NL])) entries @ [Write (''DONE'' @ [NL])]"
    and gone: "triggered_reps st' replica = None"
    unfolding entries_def by blast
  from fresh have t0: "cur_tree st0 replica = Branch []"
    by (simp add: cur_tree_def)
  have ent: "entries = map (foldl path_join '''') (if ps = [] then [] else leaves ?t)"
    using fresh t0 by (simp add: entries_def triggered_reps_fold dirty_paths_leaves)
  define ls where "ls = (if ps = [] then [] else leaves ?t)"
  have ls_iff: "l \<in> set ls \<longleftrightarrow> ps \<noteq> [] \<and> node_at ?t l = Some Dirty" for l
    using lvl_ok_fold [of "Branch []" ps] by (auto simp: ls_def leaves_iff)
  have ls_sound: "l \<in> set ls \<Longrightarrow> l \<in> set ps" for l
    using fold_record_sound [of ps "Branch []" l] by (auto simp: ls_iff node_at_empty)
  have ls_distinct: "distinct ls"
    using lvl_ok_fold [of "Branch []" ps] by (auto simp: ls_def distinct_leaves)
  have tok: "pathTokenize (foldl path_join '''' l) = l" if "l \<in> set ls" for l
  proof -
    from that have "l \<in> set ps" by (rule ls_sound)
    with segs have "\<forall>tok\<in>set l. segment tok" by (auto simp: segment_def)
    then show ?thesis
      using pathTokenize_foldl_path_join [of l "[]"] by simp
  qed
  have inj: "inj_on (foldl path_join '''') (set ls)"
    by (rule inj_on_inverseI [where g = pathTokenize]) (rule tok)
  have e_iff: "set entries = foldl path_join '''' ` set ls"
    by (simp add: ent ls_def)
  have d: "distinct entries"
    using ls_distinct inj by (simp add: ent ls_def [symmetric] distinct_map)
  have anti: "e1 = e2"
    if "e1 \<in> set entries" "e2 \<in> set entries" "prefix (pathTokenize e1) (pathTokenize e2)"
    for e1 e2
  proof -
    from that(1,2) obtain l1 l2 where l: "l1 \<in> set ls" "l2 \<in> set ls"
      "e1 = foldl path_join '''' l1" "e2 = foldl path_join '''' l2"
      by (auto simp: e_iff)
    with that(3) have "prefix l1 l2" by (simp add: tok)
    with l(1,2) have "l1 = l2" by (auto simp: ls_iff intro: dirty_antichain)
    with l(3,4) show ?thesis by simp
  qed
  have sound: "pathTokenize e \<in> set ps" if "e \<in> set entries" for e
    using that by (auto simp: e_iff tok ls_sound)
  have once: "\<exists>!e. e \<in> set entries \<and> prefix (pathTokenize e) p" if "p \<in> set ps" for p
  proof -
    from that have "covered ?t p" by (rule fold_record_complete)
    then obtain l where l: "prefix l p" "node_at ?t l = Some Dirty"
      by (auto simp: covered_iff)
    from that have "ps \<noteq> []" by auto
    with l(2) have "l \<in> set ls" by (simp add: ls_iff)
    then have e: "foldl path_join '''' l \<in> set entries"
      "prefix (pathTokenize (foldl path_join '''' l)) p"
      using l(1) by (auto simp: e_iff tok)
    show ?thesis
    proof (rule ex1I [of _ "foldl path_join '''' l"])
      show "foldl path_join '''' l \<in> set entries \<and> prefix (pathTokenize (foldl path_join '''' l)) p"
        using e by simp
    next
      fix e' assume e': "e' \<in> set entries \<and> prefix (pathTokenize e') p"
      with e(2) have "prefix (pathTokenize e') (pathTokenize (foldl path_join '''' l))
          \<or> prefix (pathTokenize (foldl path_join '''' l)) (pathTokenize e')"
        using prefix_same_cases [of "pathTokenize e'" p "pathTokenize (foldl path_join '''' l)"]
        by blast
      with e' e(1) show "e' = foldl path_join '''' l"
        by (auto dest: anti)
    qed
  qed
  show ?thesis
  proof (intro exI conjI)
    show "main_cmd ''CHANGES'' [replica] ?st = Ret () st'" by (rule run)
    show "trace st' = trace ?st
        @ map (\<lambda>e. Write (''RECURSIVE '' @ quote e @ [NL])) entries @ [Write (''DONE'' @ [NL])]"
      by (rule tr)
    show "triggered_reps st' replica = None" by (rule gone)
    show "distinct entries" by (rule d)
    show "\<forall>p\<in>set ps. \<exists>!e. e \<in> set entries \<and> prefix (pathTokenize e) p"
      using once by blast
    show "\<forall>e\<in>set entries. pathTokenize e \<in> set ps"
      using sound by blast
    show "\<forall>e1\<in>set entries. \<forall>e2\<in>set entries.
          prefix (pathTokenize e1) (pathTokenize e2) \<longrightarrow> e1 = e2"
      using anti by blast
  qed
qed

theorem drain_reports_each_change_once_witness:
  "\<exists>entries st'.
      main_cmd ''CHANGES'' [''r1'']
        (fold (triggerReplica ''r1'') [[''x'', ''y''], [''x''], [''z'', ''w'']] registered_r1)
        = Ret () st'
    \<and> trace st' =
        trace (fold (triggerReplica ''r1'') [[''x'', ''y''], [''x''], [''z'', ''w'']] registered_r1)
        @ map (\<lambda>e. Write (''RECURSIVE '' @ quote e @ [NL])) entries @ [Write (''DONE'' @ [NL])]
    \<and> triggered_reps st' ''r1'' = None
    \<and> distinct entries
    \<and> (\<forall>p\<in>set [[''x'', ''y''], [''x''], [''z'', ''w'']].
          \<exists>!e. e \<in> set entries \<and> prefix (pathTokenize e) p)
    \<and> (\<forall>e\<in>set entries. pathTokenize e \<in> set [[''x'', ''y''], [''x''], [''z'', ''w'']])
    \<and> (\<forall>e1\<in>set entries. \<forall>e2\<in>set entries.
          prefix (pathTokenize e1) (pathTokenize e2) \<longrightarrow> e1 = e2)"
proof -
  have segs: "\<forall>p\<in>set [[''x'', ''y''], [''x''], [''z'', ''w'']].
      \<forall>tok\<in>set p. tok \<noteq> [] \<and> CHR ''/'' \<notin> set tok"
    by simp
  have fresh: "triggered_reps registered_r1 ''r1'' = None"
    by (simp add: registered_r1_def init_state_def)
  have reg: "map_of (replicas registered_r1) ''r1'' \<noteq> None"
    by (simp add: registered_r1_def init_state_def)
  show ?thesis
    by (rule drain_reports_each_change_once [OF segs fresh reg])
qed

text \<open>
  C5. One call of \<^verbatim>\<open>triggerReplica\<close> on a replica whose stored tree, if any, is
  well-shaped leaves a well-shaped tree: dict keys distinct and no dict empty, so every
  branch ends in a dirty marker. The recorded path is covered afterwards. If it was not
  covered before, the node at the recorded path now is a dirty marker, whatever branch
  was rooted there. A dirty marker of the old tree is still a dirty marker, or lies
  strictly below the newly set one; none has become a branch. A dirty marker has no
  node below it.
\<close>

theorem record_keeps_tree_minimal:
  assumes "case triggered_reps st replica of None \<Rightarrow> True | Some t \<Rightarrow> lvl_ok t"
  shows "\<exists>t'. triggered_reps (triggerReplica replica toks st) replica = Some t'
    \<and> lvl_ok t'
    \<and> covered t' toks
    \<and> (\<not> covered (cur_tree st replica) toks \<longrightarrow> node_at t' toks = Some Dirty)
    \<and> (\<forall>l. node_at (cur_tree st replica) l = Some Dirty \<longrightarrow>
          node_at t' l = Some Dirty \<or> (strict_prefix toks l \<and> node_at t' toks = Some Dirty))
    \<and> (\<forall>l q. node_at t' l = Some Dirty \<and> q \<noteq> [] \<longrightarrow> node_at t' (l @ q) = None)"
proof -
  let ?t = "cur_tree st replica"
  let ?t' = "record_path toks ?t"
  from assms have "?t = Branch [] \<or> lvl_ok ?t"
    by (simp add: cur_tree_def split: option.splits)
  then have ok: "lvl_ok ?t'" by (rule lvl_ok_record_path)
  show ?thesis
  proof (intro exI conjI allI impI)
    show "triggered_reps (triggerReplica replica toks st) replica = Some ?t'"
      by (simp add: triggered_reps_triggerReplica)
    show "lvl_ok ?t'" by (rule ok)
    show "covered ?t' toks" by (rule covered_record_path_self)
    show "node_at ?t' toks = Some Dirty" if "\<not> covered ?t toks"
      using that by (simp add: record_path_dirty)
    show "node_at ?t' l = Some Dirty \<or> (strict_prefix toks l \<and> node_at ?t' toks = Some Dirty)"
      if "node_at ?t l = Some Dirty" for l
      using that by (rule dirty_kept_or_subsumed)
    show "node_at ?t' (l @ q) = None" if "node_at ?t' l = Some Dirty \<and> q \<noteq> []" for l q
      using that by (auto intro: node_at_Dirty_append)
  qed
qed

theorem record_keeps_tree_minimal_witness:
  "\<exists>t'. triggered_reps (triggerReplica ''r1'' [''x'']
        (registered_r1\<lparr>triggered_reps := [''r1'' \<mapsto> Branch [(''x'', Branch [(''y'', Dirty)])]]\<rparr>))
        ''r1'' = Some t'
    \<and> lvl_ok t'
    \<and> covered t' [''x'']
    \<and> (\<not> covered (cur_tree
          (registered_r1\<lparr>triggered_reps := [''r1'' \<mapsto> Branch [(''x'', Branch [(''y'', Dirty)])]]\<rparr>)
          ''r1'') [''x''] \<longrightarrow> node_at t' [''x''] = Some Dirty)
    \<and> (\<forall>l. node_at (cur_tree
          (registered_r1\<lparr>triggered_reps := [''r1'' \<mapsto> Branch [(''x'', Branch [(''y'', Dirty)])]]\<rparr>)
          ''r1'') l = Some Dirty \<longrightarrow>
          node_at t' l = Some Dirty \<or> (strict_prefix [''x''] l \<and> node_at t' [''x''] = Some Dirty))
    \<and> (\<forall>l q. node_at t' l = Some Dirty \<and> q \<noteq> [] \<longrightarrow> node_at t' (l @ q) = None)"
proof -
  have "case triggered_reps
      (registered_r1\<lparr>triggered_reps := [''r1'' \<mapsto> Branch [(''x'', Branch [(''y'', Dirty)])]]\<rparr>)
      ''r1'' of None \<Rightarrow> True | Some t \<Rightarrow> lvl_ok t"
    by simp
  then show ?thesis
    by (rule record_keeps_tree_minimal)
qed

text \<open>
  C6. If the empty path is among the paths recorded for a registered replica, wherever
  in the sequence and whatever the tree was before, the tree afterwards is the single
  dirty marker, and \<^verbatim>\<open>CHANGES\<close> writes exactly one \<^verbatim>\<open>RECURSIVE\<close> line, with the
  empty path, then \<^verbatim>\<open>DONE\<close>.
\<close>

theorem root_record_reports_whole_replica:
  assumes "[] \<in> set ps" and "map_of (replicas st0) replica \<noteq> None"
  shows "triggered_reps (fold (triggerReplica replica) ps st0) replica = Some Dirty
    \<and> (\<exists>st'. main_cmd ''CHANGES'' [replica] (fold (triggerReplica replica) ps st0) = Ret () st'
          \<and> trace st' = trace (fold (triggerReplica replica) ps st0)
               @ [Write (''RECURSIVE '' @ quote '''' @ [NL]), Write (''DONE'' @ [NL])]
          \<and> triggered_reps st' replica = None)"
proof -
  let ?st = "fold (triggerReplica replica) ps st0"
  from assms(1) have "ps \<noteq> []" by auto
  then have t: "triggered_reps ?st replica = Some Dirty"
    using assms(1) by (simp add: triggered_reps_fold fold_record_path_root)
  from assms(2) have "map_of (replicas ?st) replica \<noteq> None" by simp
  from main_cmd_CHANGES [OF this] t show ?thesis by simp
qed

theorem root_record_reports_whole_replica_witness:
  "triggered_reps (fold (triggerReplica ''r1'') [[''x'', ''y''], [], [''z'']] registered_r1) ''r1''
      = Some Dirty
    \<and> (\<exists>st'. main_cmd ''CHANGES'' [''r1'']
            (fold (triggerReplica ''r1'') [[''x'', ''y''], [], [''z'']] registered_r1) = Ret () st'
          \<and> trace st' =
               trace (fold (triggerReplica ''r1'') [[''x'', ''y''], [], [''z'']] registered_r1)
               @ [Write (''RECURSIVE '' @ quote '''' @ [NL]), Write (''DONE'' @ [NL])]
          \<and> triggered_reps st' ''r1'' = None)"
proof -
  have root: "[] \<in> set [[''x'', ''y''], [], [''z'']]"
    by simp
  have reg: "map_of (replicas registered_r1) ''r1'' \<noteq> None"
    by (simp add: registered_r1_def init_state_def)
  show ?thesis
    by (rule root_record_reports_whole_replica [OF root reg])
qed

text \<open>
  C10. \<^verbatim>\<open>pathTokenize\<close> of segments joined by \<^verbatim>\<open>/\<close> returns the non-empty segments, in
  order; every path string is such a join, of pieces free of \<^verbatim>\<open>/\<close>, and is tokenized to
  its non-empty pieces; every token returned is non-empty and free of \<^verbatim>\<open>/\<close>. Hence two event paths
  under a handler's root that differ in a doubled separator or in a trailing separator
  leave the same trigger trees, and an event path that is the root followed by nothing
  or by separators only tokenizes to the empty list and leaves the replica's tree as
  the single dirty marker.
\<close>

theorem pathTokenize_drops_empty_segments:
  "((\<forall>seg\<in>set segs. CHR ''/'' \<notin> set seg) \<longrightarrow>
      pathTokenize (str_join CHR ''/'' segs) = filter (\<lambda>seg. seg \<noteq> []) segs)
   \<and> (\<exists>pieces. path = str_join CHR ''/'' pieces
         \<and> (\<forall>piece\<in>set pieces. CHR ''/'' \<notin> set piece)
         \<and> pathTokenize path = filter (\<lambda>piece. piece \<noteq> []) pieces)
   \<and> (\<forall>tok\<in>set (pathTokenize path). tok \<noteq> [] \<and> CHR ''/'' \<notin> set tok)
   \<and> triggered_reps (dispatch self (h_fspath self @ a @ ''//'' @ b) st)
       = triggered_reps (dispatch self (h_fspath self @ a @ ''/'' @ b) st)
   \<and> triggered_reps (dispatch self (h_fspath self @ a @ ''/'') st)
       = triggered_reps (dispatch self (h_fspath self @ a) st)
   \<and> (set local_path \<subseteq> {CHR ''/''} \<longrightarrow>
        pathTokenize local_path = []
        \<and> triggered_reps (dispatch self (h_fspath self @ local_path) st) (h_replica self)
            = Some Dirty)"
proof (intro conjI impI ballI)
  assume "\<forall>seg\<in>set segs. CHR ''/'' \<notin> set seg"
  then show "pathTokenize (str_join CHR ''/'' segs) = filter (\<lambda>seg. seg \<noteq> []) segs"
    by (rule pathTokenize_join)
next
  have "path = str_join CHR ''/'' (str_split CHR ''/'' path)"
    by (simp add: str_join_split)
  moreover have "\<forall>piece\<in>set (str_split CHR ''/'' path). CHR ''/'' \<notin> set piece"
    by (auto dest: str_split_no_sep)
  moreover have "pathTokenize path = filter (\<lambda>piece. piece \<noteq> []) (str_split CHR ''/'' path)"
    by (simp add: pathTokenize_def)
  ultimately show "\<exists>pieces. path = str_join CHR ''/'' pieces
      \<and> (\<forall>piece\<in>set pieces. CHR ''/'' \<notin> set piece)
      \<and> pathTokenize path = filter (\<lambda>piece. piece \<noteq> []) pieces"
    by blast
next
  fix tok assume "tok \<in> set (pathTokenize path)"
  then show "tok \<noteq> []" and "CHR ''/'' \<notin> set tok"
    by (auto dest: pathTokenize_valid)
next
  show "triggered_reps (dispatch self (h_fspath self @ a @ ''//'' @ b) st)
      = triggered_reps (dispatch self (h_fspath self @ a @ ''/'' @ b) st)"
    by (simp only: triggered_reps_dispatch pathTokenize_double_sep)
next
  show "triggered_reps (dispatch self (h_fspath self @ a @ ''/'') st)
      = triggered_reps (dispatch self (h_fspath self @ a) st)"
    by (simp only: triggered_reps_dispatch pathTokenize_trailing_sep)
next
  assume seps: "set local_path \<subseteq> {CHR ''/''}"
  then show "pathTokenize local_path = []"
    by (rule pathTokenize_seps)
  then show "triggered_reps (dispatch self (h_fspath self @ local_path) st) (h_replica self)
      = Some Dirty"
    by (simp add: triggered_reps_dispatch)
qed

theorem pathTokenize_drops_empty_segments_witness:
  "pathTokenize (str_join CHR ''/'' [''x'', '''', ''y'', '''']) = [''x'', ''y'']
   \<and> pathTokenize ''x//y/'' = [''x'', ''y'']
   \<and> triggered_reps (dispatch \<lparr>h_replica = ''r1'', h_fspath = ''/tmp/a/''\<rparr> ''/tmp/a/x//y'' registered_r1)
       = triggered_reps (dispatch \<lparr>h_replica = ''r1'', h_fspath = ''/tmp/a/''\<rparr> ''/tmp/a/x/y'' registered_r1)
   \<and> triggered_reps (dispatch \<lparr>h_replica = ''r1'', h_fspath = ''/tmp/a/''\<rparr> ''/tmp/a/x/'' registered_r1)
       = triggered_reps (dispatch \<lparr>h_replica = ''r1'', h_fspath = ''/tmp/a/''\<rparr> ''/tmp/a/x'' registered_r1)
   \<and> pathTokenize ''//'' = []
   \<and> triggered_reps (dispatch \<lparr>h_replica = ''r1'', h_fspath = ''/tmp/a/''\<rparr> ''/tmp/a///'' registered_r1) ''r1''
       = Some Dirty"
  using pathTokenize_drops_empty_segments
    [where segs = "[''x'', '''', ''y'', '''']" and path = "''x//y/''"
       and self = "\<lparr>h_replica = ''r1'', h_fspath = ''/tmp/a/''\<rparr>"
       and a = "''x''" and b = "''y''" and st = registered_r1 and local_path = "''//''"]
  by (simp add: pathTokenize_def)

text \<open>
  C7. Whatever \<^verbatim>\<open>pending_reps\<close> holds, one pass of the main loop on a command other
  than \<^verbatim>\<open>WAIT\<close> ends (by returning to the loop or by leaving the process) with
  \<^verbatim>\<open>pending_reps\<close> empty, and it does what it would have done had the set been empty
  at the start: the set is cleared before the command is looked at.
\<close>

theorem other_commands_clear_pending:
  assumes "cmd \<noteq> ''WAIT''"
  shows "pending_reps (outcome_state (main_cmd cmd args st)) = {}
    \<and> main_cmd cmd args st = main_cmd cmd args (st\<lparr>pending_reps := {}\<rparr>)"
proof
  show "pending_reps (outcome_state (main_cmd cmd args st)) = {}"
    using assms
    by (simp add: main_cmd_def Let_def startReplicaMon_pending
        split: list.splits option.splits)
  show "main_cmd cmd args st = main_cmd cmd args (st\<lparr>pending_reps := {}\<rparr>)"
    using assms by (simp add: main_cmd_def)
qed

theorem other_commands_clear_pending_witness:
  "pending_reps (outcome_state (main_cmd ''CHANGES'' [''r1''] (registered_r1\<lparr>pending_reps := {''r1''}\<rparr>))) = {}
    \<and> main_cmd ''CHANGES'' [''r1''] (registered_r1\<lparr>pending_reps := {''r1''}\<rparr>)
        = main_cmd ''CHANGES'' [''r1''] (registered_r1\<lparr>pending_reps := {''r1''}, pending_reps := {}\<rparr>)"
proof -
  have "''CHANGES'' \<noteq> ''WAIT''" by simp
  then show ?thesis by (rule other_commands_clear_pending)
qed



text \<open>
  C2. The claim asks for the line \<^verbatim>\<open>CHANGES\<close> followed by the token as one argument.
  With replica \<^verbatim>\<open>r1\<close> registered and its tree the dirty marker, the \<^verbatim>\<open>WAIT\<close> branch
  leaves \<^verbatim>\<open>pending_reps\<close> empty but writes \<^verbatim>\<open>CHANGES r 1\<close>: the token cut into its
  characters, each sent as an argument of its own. The callback \<^verbatim>\<open>triggerReplica\<close>
  writes \<^verbatim>\<open>CHANGES r1\<close> for the same token.
\<close>

theorem wait_on_triggered_replica_splits_token:
  "main_cmd ''WAIT'' [''r1''] (registered_r1\<lparr>triggered_reps := [''r1'' \<mapsto> Dirty]\<rparr>)
     = Ret () (registered_r1\<lparr>triggered_reps := [''r1'' \<mapsto> Dirty],
                             trace := [Write (''CHANGES r 1'' @ [NL])]\<rparr>)
   \<and> triggerReplica ''r1'' [] (registered_r1\<lparr>pending_reps := {''r1''}\<rparr>)
     = registered_r1\<lparr>triggered_reps := [''r1'' \<mapsto> Dirty],
                     trace := [Write (''CHANGES r1'' @ [NL]), Flush]\<rparr>"
  by (simp add: main_cmd_def triggerReplica_def injectCmd_def sendCmd_def debug_if_def raw_cmd_def
      quote_def quote_char_def always_safe_def registered_r1_def init_state_def Let_def)

text \<open>
  C8, as claimed, fails. The claim has the line cut at whitespace and every token
  unquoted, the command included. \<^verbatim>\<open>recvCmd\<close> returns the first word as it stands: the
  line \<^verbatim>\<open>%57AIT r1\<close> gives the command \<^verbatim>\<open>%57AIT\<close>, not \<^verbatim>\<open>WAIT\<close>. And it cuts
  at the space character only: \<^verbatim>\<open>WAIT\<close>, a tab, \<^verbatim>\<open>r1\<close> is one word, the command, with
  no argument.
\<close>

theorem recvCmd_treats_command_as_argument_counterexample:
  "returned (recvCmd (registered_r1\<lparr>stdin := [''%57AIT r1'' @ [NL]]\<rparr>)) = Some (''%57AIT'', [''r1''])
   \<and> decode_spec (''%57AIT r1'' @ [NL]) = (''WAIT'', [''r1''])
   \<and> returned (recvCmd (registered_r1\<lparr>stdin := [''WAIT'' @ [CHR 0x09] @ ''r1'' @ [NL]]\<rparr>))
       = Some (''WAIT'' @ [CHR 0x09] @ ''r1'', [])
   \<and> decode_spec (''WAIT'' @ [CHR 0x09] @ ''r1'' @ [NL]) = (''WAIT'', [''r1''])"
  by code_simp

text \<open>
  C8, amended. For every complete line at the head of standard input, \<^verbatim>\<open>recvCmd\<close>
  returns and consumes that line. The words it works on, joined by single spaces, are
  the line without its leading and trailing whitespace; no word holds a space (so the
  cuts are exactly the spaces, and two spaces in a row enclose an empty word). The
  command is the first word, as it stands; the arguments are the other words, each
  unquoted.
\<close>

theorem recvCmd_splits_at_spaces:
  assumes "stdin st = line # rest" and "endswith line [NL]"
  shows "\<exists>words pre post st'.
      recvCmd st = Ret (hd words, map unquote (tl words)) st'
    \<and> stdin st' = rest
    \<and> line = pre @ str_join CHR '' '' words @ post
    \<and> (\<forall>c\<in>set pre. isspace c) \<and> (\<forall>c\<in>set post. isspace c)
    \<and> (str_join CHR '' '' words \<noteq> [] \<longrightarrow>
          \<not> isspace (hd (str_join CHR '' '' words)) \<and> \<not> isspace (last (str_join CHR '' '' words)))
    \<and> words \<noteq> []
    \<and> (\<forall>w\<in>set words. CHR '' '' \<notin> set w)"
proof -
  let ?words = "str_split CHR '' '' (strip line)"
  have j: "str_join CHR '' '' ?words = strip line"
    by (rule str_join_split)
  from strip_decomp [of line] obtain pre post where
    d: "line = pre @ strip line @ post" "\<forall>c\<in>set pre. isspace c" "\<forall>c\<in>set post. isspace c"
    by blast
  show ?thesis
  proof (intro exI conjI)
    show "recvCmd st = Ret (hd ?words, map unquote (tl ?words))
        (debug_if (''recvCmd: '' @ line) (st\<lparr>stdin := rest, trace := trace st @ [Flush, Read line]\<rparr>))"
      using assms by (rule recvCmd_line)
    show "stdin (debug_if (''recvCmd: '' @ line)
        (st\<lparr>stdin := rest, trace := trace st @ [Flush, Read line]\<rparr>)) = rest"
      by simp
    show "line = pre @ str_join CHR '' '' ?words @ post"
      using d(1) by (simp only: j)
    show "\<forall>c\<in>set pre. isspace c" by (rule d(2))
    show "\<forall>c\<in>set post. isspace c" by (rule d(3))
    show "str_join CHR '' '' ?words \<noteq> [] \<longrightarrow>
        \<not> isspace (hd (str_join CHR '' '' ?words)) \<and> \<not> isspace (last (str_join CHR '' '' ?words))"
      unfolding j using strip_ends [of line] by blast
    show "?words \<noteq> []" by simp
    show "\<forall>w\<in>set ?words. CHR '' '' \<notin> set w"
      by (auto dest: str_split_no_sep)
  qed
qed

theorem recvCmd_splits_at_spaces_witness:
  "\<exists>words pre post st'.
      recvCmd (registered_r1\<lparr>stdin := [''START r1 /tmp/a%20b'' @ [NL], ''DONE'' @ [NL]]\<rparr>)
        = Ret (hd words, map unquote (tl words)) st'
    \<and> stdin st' = [''DONE'' @ [NL]]
    \<and> ''START r1 /tmp/a%20b'' @ [NL] = pre @ str_join CHR '' '' words @ post
    \<and> (\<forall>c\<in>set pre. isspace c) \<and> (\<forall>c\<in>set post. isspace c)
    \<and> (str_join CHR '' '' words \<noteq> [] \<longrightarrow>
          \<not> isspace (hd (str_join CHR '' '' words)) \<and> \<not> isspace (last (str_join CHR '' '' words)))
    \<and> words \<noteq> []
    \<and> (\<forall>w\<in>set words. CHR '' '' \<notin> set w)"
proof -
  have s: "stdin (registered_r1\<lparr>stdin := [''START r1 /tmp/a%20b'' @ [NL], ''DONE'' @ [NL]]\<rparr>)
      = (''START r1 /tmp/a%20b'' @ [NL]) # [''DONE'' @ [NL]]"
    by simp
  have e: "endswith (''START r1 /tmp/a%20b'' @ [NL]) [NL]"
    by (simp add: endswith_def suffix_to_prefix)
  show ?thesis
    by (rule recvCmd_splits_at_spaces [OF s e])
qed

text \<open>
  C3, as claimed, fails. The claim has the sub-loop run before any acknowledgment and
  the \<^verbatim>\<open>OK\<close> for \<^verbatim>\<open>START\<close> sent when \<^verbatim>\<open>DONE\<close> arrives. In the run of
  \<^verbatim>\<open>START r1 /tmp/a\<close> with \<^verbatim>\<open>DONE\<close> as the next line, \<^verbatim>\<open>OK\<close> is written and flushed
  before \<^verbatim>\<open>DONE\<close> is read, and nothing is written after it.
\<close>

theorem start_ack_not_deferred_to_done_counterexample:
  "trace (outcome_state (main_cmd ''START'' [''r1'', ''/tmp/a''] (fresh_state [''DONE'' @ [NL]])))
     = [Schedule ''/tmp/a/'', Write (''OK'' @ [NL]), Flush, Read (''DONE'' @ [NL])]"
  by code_simp

text \<open>
  C3, amended. Let \<^verbatim>\<open>START\<close> succeed (the replica is registered already, or the
  observer accepts the path), and let the input continue with any number of \<^verbatim>\<open>DIR\<close>
  lines and a \<^verbatim>\<open>DONE\<close> line. Then \<^verbatim>\<open>startReplicaMon\<close> returns, having consumed exactly
  these lines, and its trace is: the watch is scheduled (for a new replica), \<^verbatim>\<open>OK\<close> is
  written before any line of the sub-loop is read, each \<^verbatim>\<open>DIR\<close> is read and answered
  with \<^verbatim>\<open>OK\<close>, and \<^verbatim>\<open>DONE\<close> is read and answered with nothing.
\<close>

theorem start_acknowledged_before_subloop:
  assumes ok: "map_of (replicas st) replica \<noteq> None \<or> schedule_error st (path_join fspath '''') = None"
    and inp: "stdin st = dirs @ fin # rest"
    and dirs: "\<forall>d\<in>set dirs. endswith d [NL] \<and> hd (str_split CHR '' '' (strip d)) = ''DIR''"
    and fin: "endswith fin [NL]" "hd (str_split CHR '' '' (strip fin)) = ''DONE''"
  shows "\<exists>st'. startReplicaMon replica fspath path st = Ret () st'
     \<and> stdin st' = rest
     \<and> trace st' = trace st
         @ (if map_of (replicas st) replica = None then [Schedule (path_join fspath '''')] else [])
         @ [Write (''OK'' @ [NL])]
         @ concat (map (\<lambda>d. [Flush, Read d, Write (''OK'' @ [NL])]) dirs)
         @ [Flush, Read fin]"
proof (cases "map_of (replicas st) replica = None")
  case False
  then obtain entry where e: "map_of (replicas st) replica = Some entry" by auto
  from inp have "stdin (sendAck st) = dirs @ fin # rest" by simp
  from startReplicaMon_loop_dirs_done [OF this dirs fin] e show ?thesis
    by (simp add: startReplicaMon_def)
next
  case True
  with ok have s: "schedule_error st (path_join fspath '''') = None" by simp
  let ?f = "path_join fspath ''''"
  let ?st2 = "debug_if (''replica:['' @ replica @ ''] watching path ['' @ ?f @ '']'')
      (debug_if (''start monitoring of replica ['' @ replica @ ''] ['' @ ?f @ '']'') st)"
  let ?st3 = "sendAck (?st2\<lparr>trace := trace ?st2 @ [Schedule ?f],
      replicas := AList.update replica \<lparr>r_watch = ObservedWatch ?f, r_fspath = ?f\<rparr> (replicas ?st2)\<rparr>)"
  from inp have "stdin ?st3 = dirs @ fin # rest" by simp
  from startReplicaMon_loop_dirs_done [OF this dirs fin] obtain st' where
    "startReplicaMon_loop ?st3 = Ret () st'" "stdin st' = rest"
    "trace st' = trace ?st3
         @ concat (map (\<lambda>d. [Flush, Read d, Write (''OK'' @ [NL])]) dirs) @ [Flush, Read fin]"
    by blast
  moreover have "startReplicaMon replica fspath path st = startReplicaMon_loop ?st3"
    using True s by (simp add: startReplicaMon_def Let_def)
  ultimately show ?thesis using True by simp
qed

theorem start_acknowledged_before_subloop_witness:
  "\<exists>st'. startReplicaMon ''r1'' ''/tmp/a'' ''''
        (fresh_state [''DIR'' @ [NL], ''DIR sub'' @ [NL], ''DONE'' @ [NL], ''WAIT r1'' @ [NL]])
        = Ret () st'
     \<and> stdin st' = [''WAIT r1'' @ [NL]]
     \<and> trace st' =
         trace (fresh_state [''DIR'' @ [NL], ''DIR sub'' @ [NL], ''DONE'' @ [NL], ''WAIT r1'' @ [NL]])
         @ (if map_of (replicas (fresh_state
                 [''DIR'' @ [NL], ''DIR sub'' @ [NL], ''DONE'' @ [NL], ''WAIT r1'' @ [NL]])) ''r1'' = None
            then [Schedule (path_join ''/tmp/a'' '''')] else [])
         @ [Write (''OK'' @ [NL])]
         @ concat (map (\<lambda>d. [Flush, Read d, Write (''OK'' @ [NL])]) [''DIR'' @ [NL], ''DIR sub'' @ [NL]])
         @ [Flush, Read (''DONE'' @ [NL])]"
proof -
  let ?st = "fresh_state [''DIR'' @ [NL], ''DIR sub'' @ [NL], ''DONE'' @ [NL], ''WAIT r1'' @ [NL]]"
  have ok: "map_of (replicas ?st) ''r1'' \<noteq> None
      \<or> schedule_error ?st (path_join ''/tmp/a'' '''') = None"
    by (simp add: fresh_state_def init_state_def)
  have inp: "stdin ?st = [''DIR'' @ [NL], ''DIR sub'' @ [NL]] @ (''DONE'' @ [NL]) # [''WAIT r1'' @ [NL]]"
    by (simp add: fresh_state_def init_state_def)
  have dirs: "\<forall>d\<in>set [''DIR'' @ [NL], ''DIR sub'' @ [NL]].
      endswith d [NL] \<and> hd (str_split CHR '' '' (strip d)) = ''DIR''"
    by (simp add: endswith_def suffix_to_prefix strip_def isspace_def)
  have fin: "endswith (''DONE'' @ [NL]) [NL]" "hd (str_split CHR '' '' (strip (''DONE'' @ [NL]))) = ''DONE''"
    by (simp_all add: endswith_def suffix_to_prefix strip_def isspace_def)
  show ?thesis
    by (rule start_acknowledged_before_subloop [OF ok inp dirs fin])
qed




end
